theory Spec2Isabelle
  imports Main "HOL-Library.AList" "HOL-Library.Sublist"
begin

section \<open>Python values, dictionaries and documents\<close>

text \<open>
  The values that occur in a document's metadata and in the result dictionaries of the
  two top-level operations. A dictionary is a map from keys to values; \<open>d.get(k)\<close>
  yields \<open>None\<close> for a missing key.
\<close>

datatype pyval = PyNone | PyBool bool | PyInt int | PyStr string

type_synonym pydict = "string \<rightharpoonup> pyval"

definition dict_get :: "pydict \<Rightarrow> string \<Rightarrow> pyval" where
  "dict_get d k = (case d k of None \<Rightarrow> PyNone | Some v \<Rightarrow> v)"

text \<open>A langchain \<open>Document\<close>: a text and a metadata dictionary. Chunks are documents.\<close>

record document =
  page_content :: string
  metadata :: pydict

subsection \<open>String formatting\<close>

text \<open>
  \<open>str\<close> of a Python integer: decimal digits without leading zeros, a minus sign for a
  negative number. \<open>py_str\<close> is what an f-string writes for a value.
\<close>

definition digits :: string where
  "digits = ''0123456789''"

function str_nat :: "nat \<Rightarrow> string" where
  "str_nat n = (if n < 10 then [digits ! n] else str_nat (n div 10) @ [digits ! (n mod 10)])"
  by pat_completeness auto
termination
  by (relation "measure id") auto

declare str_nat.simps [simp del]

definition str_int :: "int \<Rightarrow> string" where
  "str_int i = (if i < 0 then CHR ''-'' # str_nat (nat (- i)) else str_nat (nat i))"

fun py_str :: "pyval \<Rightarrow> string" where
  "py_str PyNone = ''None''"
| "py_str (PyBool b) = (if b then ''True'' else ''False'')"
| "py_str (PyInt i) = str_int i"
| "py_str (PyStr s) = s"

section \<open>Chunk identifiers (populate_db.py, calculate_chunk_ids)\<close>

text \<open>
  \<open>current_page_id\<close> is the f-string \<open>"{source}:{page}"\<close> of one chunk. The loop carries
  \<open>last_page_id\<close> (initially \<open>None\<close>) and \<open>current_chunk_index\<close> (initially 0) and
  writes the key \<open>id\<close> into each chunk's metadata.
\<close>

definition current_page_id :: "document \<Rightarrow> string" where
  "current_page_id chunk =
     (let source = dict_get (metadata chunk) ''source'';
          page = dict_get (metadata chunk) ''page''
      in py_str source @ '':'' @ py_str page)"

fun chunk_ids_loop :: "string option \<Rightarrow> int \<Rightarrow> document list \<Rightarrow> document list" where
  "chunk_ids_loop last_page_id current_chunk_index [] = []"
| "chunk_ids_loop last_page_id current_chunk_index (chunk # chunks) =
     (let page_id = current_page_id chunk;
          idx = (if Some page_id = last_page_id then current_chunk_index + 1 else 0);
          chunk_id = page_id @ '':'' @ str_int idx
      in chunk\<lparr>metadata := (metadata chunk)(''id'' \<mapsto> PyStr chunk_id)\<rparr>
           # chunk_ids_loop (Some page_id) idx chunks)"

definition calculate_chunk_ids :: "document list \<Rightarrow> document list" where
  "calculate_chunk_ids chunks = chunk_ids_loop None 0 chunks"

subsection \<open>The vocabulary of the specification\<close>

text \<open>
  The \<open>(source, page)\<close> key of a chunk, and the data model's typing of it: the source is
  a string and the page an integer.
\<close>

definition source_page :: "document \<Rightarrow> pyval \<times> pyval" where
  "source_page chunk =
     (dict_get (metadata chunk) ''source'', dict_get (metadata chunk) ''page'')"

fun str_and_int :: "pyval \<times> pyval \<Rightarrow> bool" where
  "str_and_int (PyStr s, PyInt p) = True"
| "str_and_int _ = False"

definition well_typed :: "document \<Rightarrow> bool" where
  "well_typed chunk = str_and_int (source_page chunk)"

text \<open>
  The grouping invariant: all elements that share a key are adjacent. An element that
  occurs again later is followed at once by an equal element.
\<close>

fun grouped :: "'a list \<Rightarrow> bool" where
  "grouped [] = True"
| "grouped [x] = True"
| "grouped (x # y # xs) = ((x = y \<or> x \<notin> set xs) \<and> grouped (y # xs))"

text \<open>
  The 0-based position of chunk \<open>i\<close> within its \<open>(source, page)\<close> group: the number of
  earlier chunks with the same key.
\<close>

definition group_index :: "document list \<Rightarrow> nat \<Rightarrow> int" where
  "group_index chunks i =
     int (length (filter (\<lambda>c. source_page c = source_page (chunks ! i)) (take i chunks)))"

text \<open>The identifier \<open>"<source>:<page>:<index>"\<close>.\<close>

definition chunk_identifier :: "pyval \<times> pyval \<Rightarrow> int \<Rightarrow> string" where
  "chunk_identifier key index = py_str (fst key) @ '':'' @ py_str (snd key) @ '':'' @ str_int index"

text \<open>
  The sequence of running indices the loop computes, as a function of the sequence of keys
  alone.
\<close>

fun chunk_indices :: "'a option \<Rightarrow> int \<Rightarrow> 'a list \<Rightarrow> int list" where
  "chunk_indices last_key idx [] = []"
| "chunk_indices last_key idx (k # ks) =
     (let idx' = (if Some k = last_key then idx + 1 else 0)
      in idx' # chunk_indices (Some k) idx' ks)"

subsection \<open>Example inputs\<close>

text \<open>
  A chunk with a source, a page and a text; the scenario of two documents with three and two
  chunks on page 0; and a sequence in which a key returns after another key.
\<close>

definition make_chunk :: "string \<Rightarrow> int \<Rightarrow> string \<Rightarrow> document" where
  "make_chunk source page text =
     \<lparr>page_content = text, metadata = [''source'' \<mapsto> PyStr source, ''page'' \<mapsto> PyInt page]\<rparr>"

definition two_documents :: "document list" where
  "two_documents =
     [make_chunk ''doc1.pdf'' 0 ''a'', make_chunk ''doc1.pdf'' 0 ''b'', make_chunk ''doc1.pdf'' 0 ''c'',
      make_chunk ''doc2.pdf'' 0 ''d'', make_chunk ''doc2.pdf'' 0 ''e'']"

definition interleaved :: "document list" where
  "interleaved =
     [make_chunk ''a.pdf'' 0 ''x'', make_chunk ''b.pdf'' 0 ''y'', make_chunk ''a.pdf'' 0 ''z'']"

section \<open>Properties of the chunk identifiers\<close>

subsection \<open>Decimal strings\<close>

lemma length_digits: "length digits = 10"
  by (simp add: digits_def)

lemma str_nat_digits: "set (str_nat n) \<subseteq> set digits"
proof (induction n rule: str_nat.induct)
  case (1 n)
  show ?case
  proof (cases "n < 10")
    case True
    then have "digits ! n \<in> set digits" by (simp add: length_digits)
    with True show ?thesis by (simp add: str_nat.simps [of n])
  next
    case False
    have "digits ! (n mod 10) \<in> set digits" by (simp add: length_digits)
    with False "1.IH" show ?thesis by (simp add: str_nat.simps [of n])
  qed
qed

lemma str_nat_nonempty: "str_nat n \<noteq> []" "[] \<noteq> str_nat n"
  by (simp_all add: str_nat.simps [of n])

lemma distinct_digits: "distinct digits"
  by (simp add: digits_def)

lemma str_nat_inj: "str_nat n = str_nat m \<Longrightarrow> n = m"
proof (induction n arbitrary: m rule: str_nat.induct)
  case (1 n)
  show ?case
  proof (cases "n < 10")
    case n: True
    show ?thesis
    proof (cases "m < 10")
      case True
      with n "1.prems" have "digits ! n = digits ! m"
        by (simp add: str_nat.simps [of n] str_nat.simps [of m])
      with n True show ?thesis
        by (simp add: nth_eq_iff_index_eq distinct_digits length_digits)
    next
      case False
      with n "1.prems" show ?thesis
        by (simp add: str_nat.simps [of n] str_nat.simps [of m] str_nat_nonempty)
    qed
  next
    case n: False
    show ?thesis
    proof (cases "m < 10")
      case True
      with n "1.prems" show ?thesis
        by (simp add: str_nat.simps [of n] str_nat.simps [of m] str_nat_nonempty)
    next
      case False
      with n "1.prems" have eq: "str_nat (n div 10) = str_nat (m div 10)"
        and d: "digits ! (n mod 10) = digits ! (m mod 10)"
        by (simp_all add: str_nat.simps [of n] str_nat.simps [of m])
      from "1.IH" [OF n eq] have "n div 10 = m div 10" .
      moreover from d have "n mod 10 = m mod 10"
        by (simp add: nth_eq_iff_index_eq distinct_digits length_digits)
      ultimately show ?thesis by (metis div_mult_mod_eq)
    qed
  qed
qed

lemma str_int_inj: "str_int i = str_int j \<Longrightarrow> i = j"
proof -
  assume eq: "str_int i = str_int j"
  have nd: "\<And>n. hd (str_nat n) \<noteq> CHR ''-''"
  proof -
    fix n
    have "hd (str_nat n) \<in> set (str_nat n)" by (simp add: str_nat_nonempty)
    then have "hd (str_nat n) \<in> set digits" using str_nat_digits by blast
    then show "hd (str_nat n) \<noteq> CHR ''-''" by (auto simp: digits_def)
  qed
  show ?thesis
  proof (cases "i < 0")
    case i: True
    show ?thesis
    proof (cases "j < 0")
      case True
      with i eq have "nat (- i) = nat (- j)" by (simp add: str_int_def str_nat_inj)
      with i True show ?thesis by simp
    next
      case False
      with i eq have "CHR ''-'' # str_nat (nat (- i)) = str_nat (nat j)" by (simp add: str_int_def)
      then have "hd (str_nat (nat j)) = CHR ''-''" by (metis list.sel(1))
      with nd show ?thesis by blast
    qed
  next
    case i: False
    show ?thesis
    proof (cases "j < 0")
      case True
      with i eq have "str_nat (nat i) = CHR ''-'' # str_nat (nat (- j))" by (simp add: str_int_def)
      then have "hd (str_nat (nat i)) = CHR ''-''" by (metis list.sel(1))
      with nd show ?thesis by blast
    next
      case False
      with i eq have "nat i = nat j" by (simp add: str_int_def str_nat_inj)
      with i False show ?thesis by simp
    qed
  qed
qed

lemma str_int_no_colon: "CHR '':'' \<notin> set (str_int i)"
proof -
  have "CHR '':'' \<notin> set digits" by (simp add: digits_def)
  then have "\<And>n. CHR '':'' \<notin> set (str_nat n)" using str_nat_digits by blast
  then show ?thesis by (simp add: str_int_def)
qed

lemma sep_inj:
  "c \<notin> set x \<Longrightarrow> c \<notin> set y \<Longrightarrow> a @ c # x = b @ c # y \<Longrightarrow> a = b \<and> x = y"
proof (induction a arbitrary: b)
  case Nil
  then show ?case by (cases b) auto
next
  case (Cons h a)
  then show ?case by (cases b) auto
qed

lemma colon_index_inj:
  "k @ '':'' @ str_int n = k' @ '':'' @ str_int n' \<longleftrightarrow> k = k' \<and> n = n'"
  using sep_inj [of "CHR '':''" "str_int n" "str_int n'" k k'] str_int_no_colon str_int_inj
  by auto

subsection \<open>The loop\<close>

lemma length_chunk_ids_loop: "length (chunk_ids_loop l n cs) = length cs"
  by (induction cs arbitrary: l n) (simp_all add: Let_def)

lemma length_chunk_indices: "length (chunk_indices l n ks) = length ks"
  by (induction ks arbitrary: l n) (simp_all add: Let_def)

lemma chunk_ids_loop_nth:
  "i < length cs \<Longrightarrow>
   chunk_ids_loop l n cs ! i =
     (cs ! i)\<lparr>metadata := (metadata (cs ! i))(''id'' \<mapsto>
        PyStr (current_page_id (cs ! i) @ '':'' @
               str_int (chunk_indices l n (map current_page_id cs) ! i)))\<rparr>"
proof (induction cs arbitrary: l n i)
  case Nil
  then show ?case by simp
next
  case (Cons c cs)
  show ?case
  proof (cases i)
    case 0
    then show ?thesis by (simp add: Let_def fun_upd_def)
  next
    case (Suc j)
    with Cons.prems have "j < length cs" by simp
    from Cons.IH [OF this] Suc show ?thesis by (simp add: Let_def)
  qed
qed

lemma chunk_indices_first: "ks \<noteq> [] \<Longrightarrow> chunk_indices None n ks ! 0 = 0"
  by (cases ks) (simp_all add: Let_def)

lemma chunk_indices_Suc:
  "Suc i < length ks \<Longrightarrow>
   chunk_indices l n ks ! Suc i =
     (if ks ! Suc i = ks ! i then chunk_indices l n ks ! i + 1 else 0)"
proof (induction ks arbitrary: l n i)
  case Nil
  then show ?case by simp
next
  case (Cons k ks)
  show ?case
  proof (cases i)
    case 0
    with Cons.prems obtain k' ks' where "ks = k' # ks'" by (cases ks) auto
    with 0 show ?thesis by (auto simp: Let_def)
  next
    case (Suc j)
    with Cons.prems have "Suc j < length ks" by simp
    from Cons.IH [OF this] Suc show ?thesis by (simp add: Let_def)
  qed
qed

lemma chunk_indices_map_inj:
  "inj_on f (set ks \<union> set_option l) \<Longrightarrow>
   chunk_indices (map_option f l) n (map f ks) = chunk_indices l n ks"
proof (induction ks arbitrary: l n)
  case Nil
  then show ?case by simp
next
  case (Cons k ks)
  have eq: "(Some (f k) = map_option f l) = (Some k = l)"
  proof (cases l)
    case None
    then show ?thesis by simp
  next
    case (Some a)
    with Cons.prems have "f k = f a \<longleftrightarrow> k = a" by (auto simp: inj_on_def)
    with Some show ?thesis by auto
  qed
  from Cons.prems have "inj_on f (set ks \<union> set_option (Some k))"
    by (auto simp: inj_on_def)
  from Cons.IH [OF this] have "\<And>m. chunk_indices (Some (f k)) m (map f ks) = chunk_indices (Some k) m ks"
    by simp
  with eq show ?case by (simp add: Let_def)
qed

subsection \<open>The grouping invariant\<close>

lemma grouped_Cons: "grouped (x # xs) \<longleftrightarrow> (x \<in> set xs \<longrightarrow> hd xs = x) \<and> grouped xs"
  by (cases xs) auto

lemma grouped_nth:
  "grouped xs \<longleftrightarrow>
   (\<forall>i j k. i < j \<and> j < k \<and> k < length xs \<and> xs ! i = xs ! k \<longrightarrow> xs ! j = xs ! i)"
proof (induction xs)
  case Nil
  then show ?case by simp
next
  case (Cons x xs)
  let ?P = "\<lambda>ys. \<forall>i j k. i < j \<and> j < k \<and> k < length ys \<and> ys ! i = ys ! k \<longrightarrow> ys ! j = ys ! i"
  show ?case
  proof
    assume g: "grouped (x # xs)"
    then have gx: "grouped xs" and hx: "x \<in> set xs \<longrightarrow> hd xs = x"
      by (simp_all add: grouped_Cons)
    from gx have P: "?P xs" by (rule iffD1 [OF Cons.IH])
    show "?P (x # xs)"
    proof (intro allI impI)
      fix i j k
      assume a: "i < j \<and> j < k \<and> k < length (x # xs) \<and> (x # xs) ! i = (x # xs) ! k"
      show "(x # xs) ! j = (x # xs) ! i"
      proof (cases i)
        case 0
        from a 0 obtain j' k' where jk: "j = Suc j'" "k = Suc k'"
          by (cases j; cases k) auto
        with a 0 have k': "k' < length xs" "xs ! k' = x" "j' < k'" by auto
        then have "x \<in> set xs" by (auto simp: in_set_conv_nth)
        with hx have h: "hd xs = x" by simp
        from k' have "xs \<noteq> []" by auto
        with h have x0: "xs ! 0 = x" by (simp add: hd_conv_nth)
        have "xs ! j' = x"
        proof (cases j')
          case 0
          with x0 show ?thesis by simp
        next
          case (Suc m)
          with k' x0 have "0 < j' \<and> j' < k' \<and> k' < length xs \<and> xs ! 0 = xs ! k'" by simp
          with P have "xs ! j' = xs ! 0" by blast
          with x0 show ?thesis by simp
        qed
        with 0 jk show ?thesis by simp
      next
        case (Suc i')
        with a obtain j' k' where jk: "j = Suc j'" "k = Suc k'"
          by (cases j; cases k) auto
        with a Suc have "i' < j' \<and> j' < k' \<and> k' < length xs \<and> xs ! i' = xs ! k'" by auto
        with P have "xs ! j' = xs ! i'" by blast
        with Suc jk show ?thesis by simp
      qed
    qed
  next
    assume P: "?P (x # xs)"
    have "?P xs"
    proof (intro allI impI)
      fix i j k
      assume "i < j \<and> j < k \<and> k < length xs \<and> xs ! i = xs ! k"
      then have "Suc i < Suc j \<and> Suc j < Suc k \<and> Suc k < length (x # xs) \<and>
                 (x # xs) ! Suc i = (x # xs) ! Suc k" by simp
      with P have "(x # xs) ! Suc j = (x # xs) ! Suc i" by blast
      then show "xs ! j = xs ! i" by simp
    qed
    then have gx: "grouped xs" by (rule iffD2 [OF Cons.IH])
    have "x \<in> set xs \<longrightarrow> hd xs = x"
    proof
      assume "x \<in> set xs"
      then obtain k where k: "k < length xs" "xs ! k = x" by (auto simp: in_set_conv_nth)
      then have ne: "xs \<noteq> []" by auto
      show "hd xs = x"
      proof (cases k)
        case 0
        with k ne show ?thesis by (simp add: hd_conv_nth)
      next
        case (Suc m)
        with k have "0 < Suc 0 \<and> Suc 0 < Suc k \<and> Suc k < length (x # xs) \<and>
                     (x # xs) ! 0 = (x # xs) ! Suc k" by simp
        with P have "(x # xs) ! Suc 0 = (x # xs) ! 0" by blast
        with ne show ?thesis by (simp add: hd_conv_nth)
      qed
    qed
    with gx show "grouped (x # xs)" by (simp add: grouped_Cons)
  qed
qed

lemma grouped_fresh:
  assumes "grouped ks" "Suc i < length ks" "ks ! Suc i \<noteq> ks ! i"
  shows "filter (\<lambda>k. k = ks ! Suc i) (take (Suc i) ks) = []"
proof -
  have "\<forall>k \<in> set (take (Suc i) ks). k \<noteq> ks ! Suc i"
  proof
    fix k assume "k \<in> set (take (Suc i) ks)"
    then obtain j where j: "j < Suc i" "ks ! j = k"
      by (auto simp: in_set_conv_nth)
    show "k \<noteq> ks ! Suc i"
    proof
      assume e: "k = ks ! Suc i"
      with j assms(3) have "j \<noteq> i" by auto
      with j have "j < i" by simp
      with assms(2) j e have "j < i \<and> i < Suc i \<and> Suc i < length ks \<and> ks ! j = ks ! Suc i"
        by simp
      with assms(1) have "ks ! i = ks ! j"
        unfolding grouped_nth by blast
      with j e assms(3) show False by simp
    qed
  qed
  then show ?thesis by (simp add: filter_empty_conv)
qed

lemma chunk_indices_count:
  "grouped ks \<Longrightarrow> i < length ks \<Longrightarrow>
   chunk_indices None 0 ks ! i = int (length (filter (\<lambda>k. k = ks ! i) (take i ks)))"
proof (induction i)
  case 0
  then show ?case by (simp add: chunk_indices_first)
next
  case (Suc i)
  then have IH: "chunk_indices None 0 ks ! i = int (length (filter (\<lambda>k. k = ks ! i) (take i ks)))"
    by simp
  from Suc.prems have t: "take (Suc i) ks = take i ks @ [ks ! i]"
    by (simp add: take_Suc_conv_app_nth)
  show ?case
  proof (cases "ks ! Suc i = ks ! i")
    case True
    with Suc.prems IH t show ?thesis by (simp add: chunk_indices_Suc)
  next
    case False
    from grouped_fresh [OF Suc.prems(1) Suc.prems(2) False] Suc.prems False
    show ?thesis by (simp add: chunk_indices_Suc)
  qed
qed

lemma count_take_mono:
  assumes "i < j" "j \<le> length ks"
  shows "length (filter (\<lambda>k. k = ks ! i) (take i ks)) < length (filter (\<lambda>k. k = ks ! i) (take j ks))"
proof -
  from assms obtain d where d: "j = Suc i + d"
    by (metis Suc_leI le_Suc_ex)
  from assms have i: "i < length ks" by simp
  have "take j ks = take (Suc i) ks @ take d (drop (Suc i) ks)"
    unfolding d by (rule take_add)
  with i have "take j ks = take i ks @ [ks ! i] @ take d (drop (Suc i) ks)"
    by (simp add: take_Suc_conv_app_nth)
  then show ?thesis by simp
qed

lemma grouped_distinct_pairs:
  assumes "grouped ks"
  shows "distinct (zip ks (chunk_indices None 0 ks))"
proof -
  have "\<forall>i j. i < j \<and> j < length ks \<longrightarrow>
          (ks ! i, chunk_indices None 0 ks ! i) \<noteq> (ks ! j, chunk_indices None 0 ks ! j)"
  proof (intro allI impI)
    fix i j assume ij: "i < j \<and> j < length ks"
    show "(ks ! i, chunk_indices None 0 ks ! i) \<noteq> (ks ! j, chunk_indices None 0 ks ! j)"
    proof (cases "ks ! i = ks ! j")
      case True
      from ij have "length (filter (\<lambda>k. k = ks ! i) (take i ks))
          < length (filter (\<lambda>k. k = ks ! i) (take j ks))"
        by (simp add: count_take_mono)
      with True ij assms show ?thesis by (simp add: chunk_indices_count)
    next
      case False
      then show ?thesis by simp
    qed
  qed
  then have "\<forall>i j. i < length ks \<and> j < length ks \<and> i \<noteq> j \<longrightarrow>
          (ks ! i, chunk_indices None 0 ks ! i) \<noteq> (ks ! j, chunk_indices None 0 ks ! j)"
    by (metis nat_neq_iff)
  then show ?thesis
    by (simp add: distinct_conv_nth length_chunk_indices)
qed

lemma grouped_map_inj: "inj_on f (set xs) \<Longrightarrow> grouped (map f xs) = grouped xs"
  by (induction xs rule: grouped.induct) (auto simp: inj_on_def)

lemma chunk_indices_nonneg:
  "0 \<le> n \<Longrightarrow> i < length ks \<Longrightarrow> 0 \<le> chunk_indices l n ks ! i"
proof (induction ks arbitrary: l n i)
  case Nil
  then show ?case by simp
next
  case (Cons k ks)
  show ?case
  proof (cases i)
    case 0
    with Cons.prems show ?thesis by (simp add: Let_def)
  next
    case (Suc j)
    with Cons.prems have j: "j < length ks" by simp
    have "0 \<le> (if Some k = l then n + 1 else 0)" using Cons.prems(1) by simp
    from Cons.IH [OF this j] Suc show ?thesis by (simp add: Let_def)
  qed
qed

lemma ungrouped_collision:
  assumes "\<not> grouped ks"
  shows "\<exists>p q. p < q \<and> q < length ks \<and> ks ! p = ks ! q \<and>
           chunk_indices None 0 ks ! p = 0 \<and> chunk_indices None 0 ks ! q = 0"
proof -
  from assms obtain i j k where ijk: "i < j" "j < k" "k < length ks" "ks ! i = ks ! k"
    and nj: "ks ! j \<noteq> ks ! i"
    unfolding grouped_nth by blast
  define K where "K = ks ! i"
  define q where "q = (LEAST q. j < q \<and> ks ! q = K)"
  define p where "p = (LEAST p. ks ! p = K)"
  have qk: "j < k \<and> ks ! k = K" using ijk K_def by simp
  have q1: "j < q \<and> ks ! q = K" unfolding q_def by (rule LeastI [of _ k]) (rule qk)
  have q2: "q \<le> k" unfolding q_def by (rule Least_le) (rule qk)
  have q3: "\<And>m. m < q \<Longrightarrow> \<not> (j < m \<and> ks ! m = K)"
    unfolding q_def by (rule not_less_Least)
  have p1: "ks ! p = K" unfolding p_def by (rule LeastI [of _ i]) (simp add: K_def)
  have p2: "p \<le> i" unfolding p_def by (rule Least_le) (simp add: K_def)
  have p3: "\<And>m. m < p \<Longrightarrow> ks ! m \<noteq> K"
    unfolding p_def by (rule not_less_Least)
  from q1 obtain q' where q': "q = Suc q'" by (cases q) auto
  have "ks ! q' \<noteq> K"
  proof (cases "q' = j")
    case True
    with nj K_def show ?thesis by simp
  next
    case False
    with q1 q' have "j < q'" by simp
    moreover have "q' < q" using q' by simp
    ultimately show ?thesis using q3 [of q'] by blast
  qed
  with q1 q' have "ks ! Suc q' \<noteq> ks ! q'" by simp
  moreover have "Suc q' < length ks" using q' q2 ijk by simp
  ultimately have cq: "chunk_indices None 0 ks ! q = 0"
    using q' by (simp add: chunk_indices_Suc)
  have cp: "chunk_indices None 0 ks ! p = 0"
  proof (cases p)
    case 0
    from ijk have "ks \<noteq> []" by auto
    with 0 show ?thesis by (simp add: chunk_indices_first)
  next
    case (Suc p')
    then have "ks ! p' \<noteq> K" using p3 [of p'] by simp
    with p1 Suc have "ks ! Suc p' \<noteq> ks ! p'" by simp
    moreover have "Suc p' < length ks" using Suc p2 ijk by simp
    ultimately show ?thesis using Suc by (simp add: chunk_indices_Suc)
  qed
  have "p < q" using p2 ijk q1 by simp
  moreover have "q < length ks" using q2 ijk by simp
  moreover have "ks ! p = ks ! q" using p1 q1 by simp
  ultimately show ?thesis using cp cq by blast
qed

subsection \<open>Keys and their strings\<close>

lemma current_page_id_source_page:
  "current_page_id c = py_str (fst (source_page c)) @ '':'' @ py_str (snd (source_page c))"
  by (simp add: current_page_id_def source_page_def)

lemma str_and_int_cases:
  assumes "str_and_int k"
  obtains s p where "k = (PyStr s, PyInt p)"
  using assms by (cases k rule: str_and_int.cases) auto

lemma key_str_inj:
  assumes "str_and_int k" "str_and_int k'"
    and "py_str (fst k) @ '':'' @ py_str (snd k) = py_str (fst k') @ '':'' @ py_str (snd k')"
  shows "k = k'"
proof -
  from assms(1) obtain s p where k: "k = (PyStr s, PyInt p)" by (rule str_and_int_cases)
  from assms(2) obtain s' p' where k': "k' = (PyStr s', PyInt p')" by (rule str_and_int_cases)
  from assms(3) k k' have "s @ '':'' @ str_int p = s' @ '':'' @ str_int p'" by simp
  then have "s = s' \<and> p = p'" by (simp only: colon_index_inj)
  with k k' show ?thesis by simp
qed

lemma current_page_id_eq_iff:
  "well_typed c \<Longrightarrow> well_typed c' \<Longrightarrow>
   current_page_id c = current_page_id c' \<longleftrightarrow> source_page c = source_page c'"
  using key_str_inj [of "source_page c" "source_page c'"]
  by (auto simp: well_typed_def current_page_id_source_page)

lemma page_ids_of_keys:
  "map current_page_id cs =
   map (\<lambda>k. py_str (fst k) @ '':'' @ py_str (snd k)) (map source_page cs)"
  by (simp add: current_page_id_source_page)

lemma key_str_inj_on:
  "\<forall>c \<in> set cs. well_typed c \<Longrightarrow>
   inj_on (\<lambda>k. py_str (fst k) @ '':'' @ py_str (snd k)) (set (map source_page cs))"
proof (rule inj_onI)
  fix k k'
  assume wt: "\<forall>c \<in> set cs. well_typed c"
    and k: "k \<in> set (map source_page cs)" and k': "k' \<in> set (map source_page cs)"
    and eq: "py_str (fst k) @ '':'' @ py_str (snd k) = py_str (fst k') @ '':'' @ py_str (snd k')"
  from wt k have "str_and_int k" by (auto simp: well_typed_def)
  moreover from wt k' have "str_and_int k'" by (auto simp: well_typed_def)
  ultimately show "k = k'" using eq by (rule key_str_inj)
qed

lemma grouped_page_ids:
  "\<forall>c \<in> set cs. well_typed c \<Longrightarrow>
   grouped (map current_page_id cs) = grouped (map source_page cs)"
  unfolding page_ids_of_keys by (rule grouped_map_inj) (rule key_str_inj_on)

lemma chunk_indices_page_ids:
  assumes "\<forall>c \<in> set cs. well_typed c"
  shows "chunk_indices None 0 (map current_page_id cs) = chunk_indices None 0 (map source_page cs)"
proof -
  have "inj_on (\<lambda>k. py_str (fst k) @ '':'' @ py_str (snd k))
          (set (map source_page cs) \<union> set_option None)"
    using key_str_inj_on [OF assms] by simp
  from chunk_indices_map_inj [OF this, of 0] show ?thesis
    unfolding page_ids_of_keys by simp
qed

lemma group_index_keys:
  "i < length cs \<Longrightarrow>
   group_index cs i =
     int (length (filter (\<lambda>k. k = map source_page cs ! i) (take i (map source_page cs))))"
  by (simp add: group_index_def take_map filter_map comp_def)

lemma calculate_chunk_ids_nth:
  "i < length cs \<Longrightarrow>
   calculate_chunk_ids cs ! i =
     (cs ! i)\<lparr>metadata := (metadata (cs ! i))(''id'' \<mapsto>
        PyStr (current_page_id (cs ! i) @ '':'' @
               str_int (chunk_indices None 0 (map current_page_id cs) ! i)))\<rparr>"
  by (simp add: calculate_chunk_ids_def chunk_ids_loop_nth)

lemma calculate_chunk_ids_id:
  "i < length cs \<Longrightarrow>
   metadata (calculate_chunk_ids cs ! i) ''id'' =
     Some (PyStr (current_page_id (cs ! i) @ '':'' @
               str_int (chunk_indices None 0 (map current_page_id cs) ! i)))"
  by (simp add: calculate_chunk_ids_nth)

lemma length_calculate_chunk_ids: "length (calculate_chunk_ids cs) = length cs"
  by (simp add: calculate_chunk_ids_def length_chunk_ids_loop)

lemma page_ids_distinct_ids:
  assumes "grouped (map current_page_id cs)"
  shows "distinct (map (\<lambda>c. metadata c ''id'') (calculate_chunk_ids cs))"
proof -
  let ?ks = "map current_page_id cs"
  let ?ci = "chunk_indices None 0 ?ks"
  from grouped_distinct_pairs [OF assms] have d: "distinct (zip ?ks ?ci)" .
  have "\<forall>i j. i < length cs \<and> j < length cs \<and> i \<noteq> j \<longrightarrow>
          metadata (calculate_chunk_ids cs ! i) ''id'' \<noteq> metadata (calculate_chunk_ids cs ! j) ''id''"
  proof (intro allI impI)
    fix i j assume ij: "i < length cs \<and> j < length cs \<and> i \<noteq> j"
    then have "zip ?ks ?ci ! i \<noteq> zip ?ks ?ci ! j"
      using d by (simp add: distinct_conv_nth length_chunk_indices)
    with ij have "(current_page_id (cs ! i), ?ci ! i) \<noteq> (current_page_id (cs ! j), ?ci ! j)"
      by (simp add: length_chunk_indices)
    then have "current_page_id (cs ! i) @ '':'' @ str_int (?ci ! i)
             \<noteq> current_page_id (cs ! j) @ '':'' @ str_int (?ci ! j)"
      by (simp only: colon_index_inj) simp
    with ij show "metadata (calculate_chunk_ids cs ! i) ''id'' \<noteq> metadata (calculate_chunk_ids cs ! j) ''id''"
      by (simp add: calculate_chunk_ids_id)
  qed
  then show ?thesis
    by (simp add: distinct_conv_nth length_calculate_chunk_ids)
qed

subsection \<open>The claims about calculate_chunk_ids\<close>

lemma code_index_group_index:
  assumes "\<forall>c \<in> set cs. well_typed c" "grouped (map source_page cs)" "i < length cs"
  shows "chunk_indices None 0 (map current_page_id cs) ! i = group_index cs i"
  using assms
  by (simp add: chunk_indices_page_ids chunk_indices_count group_index_keys)

lemma source_page_make_chunk [simp]:
  "source_page (make_chunk s p t) = (PyStr s, PyInt p)"
  by (simp add: source_page_def make_chunk_def dict_get_def)

lemma well_typed_make_chunk [simp]: "well_typed (make_chunk s p t)"
  by (simp add: well_typed_def)

lemma str_int_digit:
  "str_int 0 = ''0''" "str_int 1 = ''1''" "str_int 2 = ''2''"
  by (simp_all add: str_int_def str_nat.simps digits_def)

text \<open>
  Claim C1. For every sequence of chunks that is grouped by \<open>(source, page)\<close>, the source a
  string and the page an integer as in the data model, \<open>calculate_chunk_ids\<close> returns as
  many chunks as it was given and chunk \<open>i\<close> is the input chunk with the metadata key
  \<open>id\<close> set to \<open>"<source>:<page>:<index>"\<close>, where the index is the number of earlier
  chunks of the same group, so that it counts 0, 1, 2, ... within the group. The index is 0
  exactly for the first chunk and for a chunk whose key differs from the key of the chunk
  before it, and otherwise it is one more than the index of the chunk before it.
\<close>

theorem chunk_ids_grouped:
  assumes "\<forall>c \<in> set chunks. well_typed c"
    and "grouped (map source_page chunks)"
    and "i < length chunks"
  shows "length (calculate_chunk_ids chunks) = length chunks \<and>
         calculate_chunk_ids chunks ! i =
           (chunks ! i)\<lparr>metadata := (metadata (chunks ! i))(''id'' \<mapsto>
              PyStr (chunk_identifier (source_page (chunks ! i)) (group_index chunks i)))\<rparr> \<and>
         (group_index chunks i = 0 \<longleftrightarrow>
            i = 0 \<or> source_page (chunks ! i) \<noteq> source_page (chunks ! (i - 1))) \<and>
         (0 < i \<and> source_page (chunks ! i) = source_page (chunks ! (i - 1)) \<longrightarrow>
            group_index chunks i = group_index chunks (i - 1) + 1)"
proof -
  let ?ks = "map source_page chunks"
  have ci: "\<And>j. j < length chunks \<Longrightarrow> chunk_indices None 0 ?ks ! j = group_index chunks j"
    using assms(1,2) code_index_group_index [of chunks] chunk_indices_page_ids [of chunks]
    by simp
  have a: "calculate_chunk_ids chunks ! i =
           (chunks ! i)\<lparr>metadata := (metadata (chunks ! i))(''id'' \<mapsto>
              PyStr (chunk_identifier (source_page (chunks ! i)) (group_index chunks i)))\<rparr>"
    using assms
    by (simp add: calculate_chunk_ids_nth code_index_group_index chunk_identifier_def
        current_page_id_source_page)
  have b: "group_index chunks i = 0 \<longleftrightarrow>
            i = 0 \<or> source_page (chunks ! i) \<noteq> source_page (chunks ! (i - 1))"
   and c: "0 < i \<and> source_page (chunks ! i) = source_page (chunks ! (i - 1)) \<longrightarrow>
            group_index chunks i = group_index chunks (i - 1) + 1"
  proof -
    show "group_index chunks i = 0 \<longleftrightarrow>
            i = 0 \<or> source_page (chunks ! i) \<noteq> source_page (chunks ! (i - 1))"
    proof (cases i)
      case 0
      then show ?thesis by (simp add: group_index_def)
    next
      case (Suc j)
      with assms(3) have j: "j < length chunks" "Suc j < length ?ks" by simp_all
      have "0 \<le> group_index chunks j" by (simp add: group_index_def)
      moreover have "group_index chunks (Suc j) =
          (if ?ks ! Suc j = ?ks ! j then group_index chunks j + 1 else 0)"
        using chunk_indices_Suc [OF j(2), of None 0] ci [of j] ci [of "Suc j"] j assms(3) Suc
        by simp
      ultimately show ?thesis using Suc j by auto
    qed
    show "0 < i \<and> source_page (chunks ! i) = source_page (chunks ! (i - 1)) \<longrightarrow>
            group_index chunks i = group_index chunks (i - 1) + 1"
    proof (cases i)
      case 0
      then show ?thesis by simp
    next
      case (Suc j)
      with assms(3) have j: "j < length chunks" "Suc j < length ?ks" by simp_all
      have "group_index chunks (Suc j) =
          (if ?ks ! Suc j = ?ks ! j then group_index chunks j + 1 else 0)"
        using chunk_indices_Suc [OF j(2), of None 0] ci [of j] ci [of "Suc j"] j assms(3) Suc
        by simp
      then show ?thesis using Suc j by auto
    qed
  qed
  from a b c show ?thesis by (simp add: length_calculate_chunk_ids)
qed

theorem chunk_ids_grouped_witness:
  "list_all well_typed two_documents \<and> grouped (map source_page two_documents) \<and>
   4 < length two_documents \<and>
   metadata (calculate_chunk_ids two_documents ! 4) ''id'' = Some (PyStr ''doc2.pdf:0:1'') \<and>
   group_index two_documents 3 = 0 \<and> group_index two_documents 2 = 2"
proof -
  have h1: "\<forall>c \<in> set two_documents. well_typed c" by (simp add: two_documents_def)
  have h2: "grouped (map source_page two_documents)" by (simp add: two_documents_def)
  have h3: "4 < length two_documents" by (simp add: two_documents_def)
  have g: "group_index two_documents 4 = 1" "group_index two_documents 3 = 0"
    "group_index two_documents 2 = 2"
    by (simp_all add: group_index_def two_documents_def)
  have s: "source_page (two_documents ! 4) = (PyStr ''doc2.pdf'', PyInt 0)"
    by (simp add: two_documents_def)
  from chunk_ids_grouped [OF h1 h2 h3] h1 h2 h3 g s show ?thesis
    by (simp add: chunk_identifier_def str_int_digit list_all_iff)
qed

text \<open>
  Claim C2. For every sequence of chunks in which all chunks that share a \<open>(source, page)\<close>
  key are adjacent, no two chunks at different positions receive the same identifier.
\<close>

theorem chunk_ids_unique:
  assumes "\<forall>c \<in> set chunks. well_typed c"
    and "grouped (map source_page chunks)"
  shows "distinct (map (\<lambda>c. metadata c ''id'') (calculate_chunk_ids chunks))"
  using assms by (simp add: page_ids_distinct_ids grouped_page_ids)

theorem chunk_ids_unique_witness:
  "list_all well_typed two_documents \<and> grouped (map source_page two_documents) \<and>
   distinct (map (\<lambda>c. metadata c ''id'') (calculate_chunk_ids two_documents))"
proof -
  have h1: "\<forall>c \<in> set two_documents. well_typed c" by (simp add: two_documents_def)
  have h2: "grouped (map source_page two_documents)" by (simp add: two_documents_def)
  from chunk_ids_unique [OF h1 h2] h1 h2 show ?thesis by (simp add: list_all_iff)
qed

text \<open>
  Claim C10. When the grouping invariant is violated, a key returning after a chunk with a
  different key, \<open>calculate_chunk_ids\<close> gives the same identifier to two chunks at
  different positions: two chunks of one key both receive the identifier with index 0,
  since the running index restarts at 0 at every change of key. The witness is the sequence
  of keys A, B, A.
\<close>

theorem chunk_ids_collision:
  assumes "\<forall>c \<in> set chunks. well_typed c"
    and "\<not> grouped (map source_page chunks)"
  shows "\<exists>i j. i < j \<and> j < length chunks \<and>
           source_page (chunks ! i) = source_page (chunks ! j) \<and>
           metadata (calculate_chunk_ids chunks ! i) ''id'' =
             Some (PyStr (chunk_identifier (source_page (chunks ! i)) 0)) \<and>
           metadata (calculate_chunk_ids chunks ! j) ''id'' =
             Some (PyStr (chunk_identifier (source_page (chunks ! i)) 0))"
proof -
  let ?ks = "map source_page chunks"
  from ungrouped_collision [OF assms(2)] obtain p q where pq: "p < q" "q < length ?ks"
    "?ks ! p = ?ks ! q" "chunk_indices None 0 ?ks ! p = 0" "chunk_indices None 0 ?ks ! q = 0"
    by blast
  then have lt: "p < length chunks" "q < length chunks" by simp_all
  have "metadata (calculate_chunk_ids chunks ! p) ''id'' =
             Some (PyStr (chunk_identifier (source_page (chunks ! p)) 0))"
    using lt pq(4) assms(1)
    by (simp add: calculate_chunk_ids_id chunk_indices_page_ids chunk_identifier_def
        current_page_id_source_page)
  moreover have "metadata (calculate_chunk_ids chunks ! q) ''id'' =
             Some (PyStr (chunk_identifier (source_page (chunks ! p)) 0))"
    using lt pq(3,5) assms(1)
    by (simp add: calculate_chunk_ids_id chunk_indices_page_ids chunk_identifier_def
        current_page_id_source_page)
  moreover have "source_page (chunks ! p) = source_page (chunks ! q)" using pq(3) lt by simp
  ultimately show ?thesis using pq(1) lt(2) by blast
qed

theorem chunk_ids_collision_witness:
  "list_all well_typed interleaved \<and> \<not> grouped (map source_page interleaved) \<and>
   metadata (calculate_chunk_ids interleaved ! 0) ''id'' = Some (PyStr ''a.pdf:0:0'') \<and>
   metadata (calculate_chunk_ids interleaved ! 2) ''id'' = Some (PyStr ''a.pdf:0:0'') \<and>
   (\<exists>i j. i < j \<and> j < length interleaved \<and>
      metadata (calculate_chunk_ids interleaved ! i) ''id'' =
      metadata (calculate_chunk_ids interleaved ! j) ''id'')"
proof -
  have h1: "\<forall>c \<in> set interleaved. well_typed c" by (simp add: interleaved_def)
  have h2: "\<not> grouped (map source_page interleaved)" by (simp add: interleaved_def)
  have e: "metadata (calculate_chunk_ids interleaved ! 0) ''id'' = Some (PyStr ''a.pdf:0:0'')"
    "metadata (calculate_chunk_ids interleaved ! 2) ''id'' = Some (PyStr ''a.pdf:0:0'')"
    by (simp_all add: interleaved_def calculate_chunk_ids_def current_page_id_source_page
        str_int_digit Let_def)
  from chunk_ids_collision [OF h1 h2] have
    "\<exists>i j. i < j \<and> j < length interleaved \<and>
      metadata (calculate_chunk_ids interleaved ! i) ''id'' =
      metadata (calculate_chunk_ids interleaved ! j) ''id''"
    by metis
  with h1 h2 e show ?thesis by (simp add: list_all_iff)
qed

end
